theory Spec2Isabelle
  imports Complex_Main "HOL-Library.AList"
begin

section \<open>The ticket ledger of \<open>hehehe.py\<close>\<close>

text \<open>
  The source file holds two versions of the ledger classes; the second one (the part headed
  \<open>top final.py\<close>, lines 212 onwards) redefines \<open>TicketTransaction\<close>, \<open>Block\<close> and
  \<open>TicketBlockchain\<close> and adds \<open>transfer_ticket\<close>. It is the one embedded here. The
  Streamlit pages around the classes only call the five methods and are not modelled.

  Three things the classes obtain from outside are made explicit:
  \<^item> \<open>json.dumps\<close> and \<open>hashlib.sha256(...).hexdigest()\<close> are the two fields of an
    environment record \<open>env\<close>, passed to every function that hashes;
  \<^item> each reading of \<open>time.time()\<close> is an argument \<open>now\<close> of the function that reads it;
  \<^item> the value of \<open>str(uuid.uuid4())\<close> is an argument \<open>uuid\<close> of \<open>issue_ticket\<close>.

  A timestamp is a Python float that is stored and serialised and never computed with; it
  is the real number it denotes. An event is what the pages of this version pass: the
  name of the event, a string. Python's unbounded integers \<open>index\<close> and \<open>nonce\<close> are
  never negative and are natural numbers.
\<close>

subsection \<open>Data\<close>

text \<open>The values handed to \<open>json.dumps\<close>.\<close>

datatype json =
    JNull
  | JString string
  | JInt int
  | JFloat real
  | JArray "json list"
  | JObject "(string \<times> json) list"

record env =
  json_dumps :: "json \<Rightarrow> string"
  sha256_hexdigest :: "string \<Rightarrow> string"

text \<open>\<open>class TicketTransaction\<close>: the attributes set by \<open>__init__\<close>.\<close>

record TicketTransaction =
  tx_type :: string
  ticket_id :: string
  owner :: string
  event :: "string option"
  new_owner :: "string option"
  timestamp :: real

text \<open>
  \<open>class Block\<close>. \<open>__init__\<close> sets five attributes; \<open>hash\<close> is assigned later by the
  creator of the block, so it is \<open>None\<close> until then.
\<close>

record Block =
  index :: nat
  transactions :: "TicketTransaction list"
  timestamp :: real
  previous_hash :: string
  nonce :: nat
  hash :: "string option"

text \<open>A registry entry: the dictionary \<open>{"owner": ..., "status": ..., "event": ...}\<close>.\<close>

record ticket =
  owner :: string
  status :: string
  event :: string

text \<open>
  \<open>class TicketBlockchain\<close>. The dictionary \<open>tickets\<close> is an association list in
  insertion order, as a Python \<open>dict\<close> is: \<open>map_of\<close> is \<open>dict.get\<close> and
  \<open>AList.update\<close> is item assignment.

  \<open>submitted\<close> is a history variable and no attribute of the class: it records, in order,
  every argument \<open>add_transaction\<close> was called with. No function reads it.
\<close>

record ledger =
  chain :: "Block list"
  pending_transactions :: "TicketTransaction list"
  tickets :: "(string \<times> ticket) list"
  submitted :: "TicketTransaction list"

datatype py_error = IndexError

subsection \<open>Transactions and blocks\<close>

definition TicketTransaction_init ::
  "real \<Rightarrow> string \<Rightarrow> string \<Rightarrow> string \<Rightarrow> string option \<Rightarrow> string option \<Rightarrow> TicketTransaction" where
  "TicketTransaction_init now ty tid own ev new_own =
     \<lparr>tx_type = ty, ticket_id = tid, TicketTransaction.owner = own,
      TicketTransaction.event = ev, new_owner = new_own,
      TicketTransaction.timestamp = now\<rparr>"

definition json_opt :: "string option \<Rightarrow> json" where
  "json_opt v = (case v of None \<Rightarrow> JNull | Some x \<Rightarrow> JString x)"

text \<open>\<open>to_dict\<close> returns \<open>self.__dict__\<close>: the six attributes under their names.\<close>

definition to_dict :: "TicketTransaction \<Rightarrow> json" where
  "to_dict tx = JObject
     [(''tx_type'', JString (tx_type tx)),
      (''ticket_id'', JString (ticket_id tx)),
      (''owner'', JString (TicketTransaction.owner tx)),
      (''event'', json_opt (TicketTransaction.event tx)),
      (''new_owner'', json_opt (new_owner tx)),
      (''timestamp'', JFloat (TicketTransaction.timestamp tx))]"

definition Block_init :: "real \<Rightarrow> nat \<Rightarrow> TicketTransaction list \<Rightarrow> string \<Rightarrow> Block" where
  "Block_init now idx txs prev =
     \<lparr>index = idx, transactions = txs, timestamp = now, previous_hash = prev,
      nonce = 0, hash = None\<rparr>"

definition compute_hash :: "env \<Rightarrow> Block \<Rightarrow> string" where
  "compute_hash E b =
     (let block_string = json_dumps E (JObject
        [(''index'', JInt (int (index b))),
         (''transactions'', JArray (map to_dict (transactions b))),
         (''timestamp'', JFloat (timestamp b)),
         (''previous_hash'', JString (previous_hash b)),
         (''nonce'', JInt (int (nonce b)))])
      in sha256_hexdigest E block_string)"

subsection \<open>The ledger\<close>

definition difficulty :: nat where
  "difficulty = 2"

definition startswith :: "string \<Rightarrow> string \<Rightarrow> bool" where
  "startswith s p \<longleftrightarrow> take (length p) s = p"

definition create_genesis_block :: "env \<Rightarrow> real \<Rightarrow> ledger \<Rightarrow> ledger" where
  "create_genesis_block E now s =
     (let genesis_block = Block_init now 0 [] ''0'';
          genesis_block = genesis_block\<lparr>hash := Some (compute_hash E genesis_block)\<rparr>
      in s\<lparr>chain := chain s @ [genesis_block]\<rparr>)"

definition TicketBlockchain_init :: "env \<Rightarrow> real \<Rightarrow> ledger" where
  "TicketBlockchain_init E now =
     create_genesis_block E now
       \<lparr>chain = [], pending_transactions = [], tickets = [], submitted = []\<rparr>"

definition add_transaction :: "TicketTransaction \<Rightarrow> ledger \<Rightarrow> ledger" where
  "add_transaction transaction s =
     s\<lparr>pending_transactions := pending_transactions s @ [transaction],
       submitted := submitted s @ [transaction]\<rparr>"

text \<open>The string \<open>"0" * self.difficulty\<close> a digest has to start with.\<close>

abbreviation target :: string where
  "target \<equiv> replicate difficulty (CHR ''0'')"

text \<open>
  The \<open>while\<close> loop of \<open>proof_of_work\<close>, on the block (whose \<open>nonce\<close> it increments in
  place) and the last digest computed. The loop has no bound, so a search that never meets
  the target is the value \<open>None\<close>.
\<close>

partial_function (option) proof_of_work_loop :: "env \<Rightarrow> Block \<Rightarrow> string \<Rightarrow> (Block \<times> string) option" where
  "proof_of_work_loop E block computed_hash =
     (if \<not> startswith computed_hash target
      then (let block = block\<lparr>nonce := nonce block + 1\<rparr>
            in proof_of_work_loop E block (compute_hash E block))
      else Some (block, computed_hash))"

declare proof_of_work_loop.simps [code]

definition proof_of_work :: "env \<Rightarrow> Block \<Rightarrow> (Block \<times> string) option" where
  "proof_of_work E block =
     (let block = block\<lparr>nonce := 0\<rparr>
      in proof_of_work_loop E block (compute_hash E block))"

text \<open>
  \<open>mine\<close> returns \<open>None\<close> when the search does not return, \<open>Inl IndexError\<close> where
  \<open>self.chain[-1]\<close> raises, and otherwise the value returned (Python's \<open>None\<close> or the new
  block) with the ledger after the call.
\<close>

definition mine :: "env \<Rightarrow> real \<Rightarrow> ledger \<Rightarrow> (py_error + Block option \<times> ledger) option" where
  "mine E now s =
     (if pending_transactions s = [] then Some (Inr (None, s))
      else if chain s = [] then Some (Inl IndexError)
      else
        (case proof_of_work E
                (Block_init now (length (chain s)) (pending_transactions s)
                   (compute_hash E (last (chain s)))) of
           None \<Rightarrow> None
         | Some (block, computed_hash) \<Rightarrow>
             (let new_block = block\<lparr>hash := Some computed_hash\<rparr>
              in Some (Inr (Some new_block,
                   s\<lparr>chain := chain s @ [new_block], pending_transactions := []\<rparr>)))))"

definition issue_ticket :: "string \<Rightarrow> real \<Rightarrow> string \<Rightarrow> string \<Rightarrow> ledger \<Rightarrow> string \<times> ledger" where
  "issue_ticket uuid now own ev s =
     (let tid = uuid;
          tx = TicketTransaction_init now ''issue'' tid own (Some ev) None;
          s = add_transaction tx s;
          s = s\<lparr>tickets := AList.update tid
                 \<lparr>ticket.owner = own, status = ''valid'', ticket.event = ev\<rparr> (tickets s)\<rparr>
      in (tid, s))"

text \<open>
  \<open>self.tickets.get(ticket_id)\<close> is \<open>None\<close> for a missing identifier and otherwise an
  entry with its three keys, which is never empty: \<open>not ticket\<close> holds exactly for the
  missing identifier.
\<close>

definition transfer_ticket :: "real \<Rightarrow> string \<Rightarrow> string \<Rightarrow> ledger \<Rightarrow> bool \<times> ledger" where
  "transfer_ticket now tid new_own s =
     (case map_of (tickets s) tid of
        None \<Rightarrow> (False, s)
      | Some t \<Rightarrow>
          if status t \<noteq> ''valid'' then (False, s)
          else
            (let tx = TicketTransaction_init now ''transfer'' tid (ticket.owner t) None (Some new_own);
                 s = add_transaction tx s;
                 s = s\<lparr>tickets := AList.update tid (t\<lparr>ticket.owner := new_own\<rparr>) (tickets s)\<rparr>
             in (True, s)))"

definition redeem_ticket :: "real \<Rightarrow> string \<Rightarrow> ledger \<Rightarrow> bool \<times> ledger" where
  "redeem_ticket now tid s =
     (case map_of (tickets s) tid of
        None \<Rightarrow> (False, s)
      | Some t \<Rightarrow>
          if status t \<noteq> ''valid'' then (False, s)
          else
            (let tx = TicketTransaction_init now ''redeem'' tid (ticket.owner t) None None;
                 s = add_transaction tx s;
                 s = s\<lparr>tickets := AList.update tid (t\<lparr>status := ''redeemed''\<rparr>) (tickets s)\<rparr>
             in (True, s)))"

definition verify_ticket :: "string \<Rightarrow> ledger \<Rightarrow> ticket option \<times> ledger" where
  "verify_ticket tid s =
     (case map_of (tickets s) tid of
        None \<Rightarrow> (None, s)
      | Some t \<Rightarrow> (Some t, s))"

subsection \<open>Sequences of calls\<close>

text \<open>
  A call of one of the five methods, with the values it reads from the clock and from
  \<open>uuid4\<close>. \<open>exec_call\<close> gives the ledger after the call; it is \<open>None\<close> when \<open>mine\<close> does not
  return normally.
\<close>

datatype call =
    Issue string real string string
  | Transfer real string string
  | Redeem real string
  | Verify string
  | Mine real

fun exec_call :: "env \<Rightarrow> call \<Rightarrow> ledger \<Rightarrow> ledger option" where
  "exec_call E (Issue uuid now own ev) s = Some (snd (issue_ticket uuid now own ev s))"
| "exec_call E (Transfer now tid new_own) s = Some (snd (transfer_ticket now tid new_own s))"
| "exec_call E (Redeem now tid) s = Some (snd (redeem_ticket now tid s))"
| "exec_call E (Verify tid) s = Some (snd (verify_ticket tid s))"
| "exec_call E (Mine now) s =
     (case mine E now s of Some (Inr (r, s')) \<Rightarrow> Some s' | _ \<Rightarrow> None)"

fun run :: "env \<Rightarrow> call list \<Rightarrow> ledger \<Rightarrow> ledger option" where
  "run E [] s = Some s"
| "run E (c # cs) s = (case exec_call E c s of None \<Rightarrow> None | Some s' \<Rightarrow> run E cs s')"

subsection \<open>Predicates used in the proofs\<close>

text \<open>
  What \<open>proof_of_work\<close> establishes when it returns the pair \<open>r\<close> for the block \<open>b\<close>:
  the digest returned is the hash of the block returned and starts with the target, the
  block returned is \<open>b\<close> with another nonce, and no nonce from \<open>b\<close>'s up to that one
  meets the target.
\<close>

definition pow_post :: "env \<Rightarrow> Block \<Rightarrow> Block \<times> string \<Rightarrow> bool" where
  "pow_post E b r \<longleftrightarrow>
     snd r = compute_hash E (fst r) \<and> startswith (snd r) target \<and>
     fst r = b\<lparr>nonce := nonce (fst r)\<rparr> \<and> nonce b \<le> nonce (fst r) \<and>
     (\<forall>j. nonce b \<le> j \<and> j < nonce (fst r) \<longrightarrow>
          \<not> startswith (compute_hash E (b\<lparr>nonce := j\<rparr>)) target)"

text \<open>The invariant of the chain: a genesis block first, every block sealed and linked.\<close>

definition chain_inv :: "env \<Rightarrow> Block list \<Rightarrow> bool" where
  "chain_inv E ch \<longleftrightarrow>
     ch \<noteq> [] \<and>
     index (ch ! 0) = 0 \<and> transactions (ch ! 0) = [] \<and>
     previous_hash (ch ! 0) = ''0'' \<and> nonce (ch ! 0) = 0 \<and>
     (\<forall>i<length ch. hash (ch ! i) = Some (compute_hash E (ch ! i)) \<and> index (ch ! i) = i) \<and>
     (\<forall>i. Suc i < length ch \<longrightarrow>
        previous_hash (ch ! Suc i) = compute_hash E (ch ! i) \<and>
        startswith (compute_hash E (ch ! Suc i)) target \<and>
        transactions (ch ! Suc i) \<noteq> [])"

text \<open>The invariant of the transactions: the history is the blocks' content, then the buffer.\<close>

definition txs_inv :: "ledger \<Rightarrow> bool" where
  "txs_inv s \<longleftrightarrow>
     submitted s = concat (map transactions (chain s)) @ pending_transactions s"

text \<open>The identifier a call draws from \<open>uuid4\<close>, if it draws one.\<close>

fun issued_uuid :: "call \<Rightarrow> string option" where
  "issued_uuid (Issue uuid now own ev) = Some uuid"
| "issued_uuid c = None"

subsection \<open>A small environment to run the ledger in\<close>

text \<open>
  Stand-ins for the serialiser and the hash function, cheap enough to evaluate: the
  serialiser writes integers in unary, strings as they are and the key for every other
  value; the digest starts with \<open>00\<close> when the length of its input is a multiple of three.
  \<open>demo_flow\<close> is the demo of the source's start-up: issue, mine, transfer, mine, redeem,
  mine.
\<close>

definition stub_dumps :: "json \<Rightarrow> string" where
  "stub_dumps j =
     (case j of
        JObject kvs \<Rightarrow>
          concat (map (\<lambda>kv. case snd kv of
                               JInt n \<Rightarrow> replicate (nat n) (CHR ''1'')
                             | JString x \<Rightarrow> x
                             | _ \<Rightarrow> fst kv) kvs)
      | _ \<Rightarrow> [])"

definition stub_sha256 :: "string \<Rightarrow> string" where
  "stub_sha256 x = (if length x mod 3 = 0 then ''00'' else ''9e'') @ take 8 x"

definition stub_env :: env where
  "stub_env = \<lparr>json_dumps = stub_dumps, sha256_hexdigest = stub_sha256\<rparr>"

definition demo_flow :: "call list" where
  "demo_flow =
     [Issue ''t1'' 1 ''Alice'' ''Rock Concert'', Mine 2,
      Transfer 3 ''t1'' ''Bob'', Mine 4,
      Redeem 5 ''t1'', Mine 6]"

section \<open>Properties\<close>

subsection \<open>The proof-of-work search\<close>

lemma compute_hash_hash_upd: "compute_hash E (b\<lparr>hash := h\<rparr>) = compute_hash E b"
  by (simp add: compute_hash_def)

lemma pow_loop_sound:
  assumes "proof_of_work_loop E b h = Some r"
  shows "h = compute_hash E b \<longrightarrow> pow_post E b r"
proof (rule proof_of_work_loop.raw_induct
    [where P = "\<lambda>E b h r. h = compute_hash E b \<longrightarrow> pow_post E b r", OF _ assms])
  fix f :: "env \<Rightarrow> Block \<Rightarrow> string \<Rightarrow> (Block \<times> string) option"
    and E b h r
  assume IH: "\<And>E b h r. f E b h = Some r \<Longrightarrow> h = compute_hash E b \<longrightarrow> pow_post E b r"
    and eq: "(if \<not> startswith h target
          then let block = b\<lparr>nonce := nonce b + 1\<rparr> in f E block (compute_hash E block)
          else Some (b, h)) = Some r"
  show "h = compute_hash E b \<longrightarrow> pow_post E b r"
  proof (cases "startswith h target")
    case True
    with eq show ?thesis by (auto simp: pow_post_def)
  next
    case False
    let ?b = "b\<lparr>nonce := nonce b + 1\<rparr>"
    from False eq have "f E ?b (compute_hash E ?b) = Some r"
      by (simp add: Let_def)
    from IH[OF this] have ih: "pow_post E ?b r" by simp
    show ?thesis
    proof
      assume h: "h = compute_hash E b"
      have "\<not> startswith (compute_hash E (b\<lparr>nonce := j\<rparr>)) target"
        if j: "nonce b \<le> j \<and> j < nonce (fst r)" for j
      proof (cases "j = nonce b")
        case True
        then show ?thesis using False h by simp
      next
        case False
        with j have "nonce ?b \<le> j \<and> j < nonce (fst r)" by simp
        with ih have "\<not> startswith (compute_hash E (?b\<lparr>nonce := j\<rparr>)) target"
          unfolding pow_post_def by blast
        then show ?thesis by simp
      qed
      moreover have "snd r = compute_hash E (fst r)" "startswith (snd r) target"
        using ih unfolding pow_post_def by blast+
      moreover have "fst r = ?b\<lparr>nonce := nonce (fst r)\<rparr>" "nonce ?b \<le> nonce (fst r)"
        using ih unfolding pow_post_def by blast+
      then have "fst r = b\<lparr>nonce := nonce (fst r)\<rparr>" "nonce b \<le> nonce (fst r)"
        by simp_all
      ultimately show "pow_post E b r"
        unfolding pow_post_def by blast
    qed
  qed
qed

lemma pow_loop_least:
  "startswith (compute_hash E (b\<lparr>nonce := nonce b + k\<rparr>)) target \<Longrightarrow>
   \<forall>j<k. \<not> startswith (compute_hash E (b\<lparr>nonce := nonce b + j\<rparr>)) target \<Longrightarrow>
   proof_of_work_loop E b (compute_hash E b) =
     Some (b\<lparr>nonce := nonce b + k\<rparr>, compute_hash E (b\<lparr>nonce := nonce b + k\<rparr>))"
proof (induction k arbitrary: b)
  case 0
  then show ?case by (subst proof_of_work_loop.simps) simp
next
  case (Suc k)
  let ?b = "b\<lparr>nonce := nonce b + 1\<rparr>"
  from Suc.prems(2) have cur: "\<not> startswith (compute_hash E b) target"
    by (auto dest: spec[of _ 0])
  have a: "startswith (compute_hash E (?b\<lparr>nonce := nonce ?b + k\<rparr>)) target"
    using Suc.prems(1) by simp
  have b: "\<forall>j<k. \<not> startswith (compute_hash E (?b\<lparr>nonce := nonce ?b + j\<rparr>)) target"
    using Suc.prems(2) by (auto dest: spec[of _ "Suc _"])
  from Suc.IH[OF a b] cur show ?case
    by (subst proof_of_work_loop.simps) (simp add: Let_def)
qed

lemma proof_of_work_sound:
  assumes "proof_of_work E b = Some r"
  shows "pow_post E (b\<lparr>nonce := 0\<rparr>) r"
  using assms pow_loop_sound[of E "b\<lparr>nonce := 0\<rparr>" "compute_hash E (b\<lparr>nonce := 0\<rparr>)" r]
  by (simp add: proof_of_work_def Let_def)

lemma proof_of_work_least:
  assumes "startswith (compute_hash E (b\<lparr>nonce := k\<rparr>)) target"
    and "\<forall>j<k. \<not> startswith (compute_hash E (b\<lparr>nonce := j\<rparr>)) target"
  shows "proof_of_work E b = Some (b\<lparr>nonce := k\<rparr>, compute_hash E (b\<lparr>nonce := k\<rparr>))"
  using assms pow_loop_least[of E "b\<lparr>nonce := 0\<rparr>" k]
  by (simp add: proof_of_work_def Let_def)

lemma proof_of_work_returns:
  assumes "\<exists>n. startswith (compute_hash E (b\<lparr>nonce := n\<rparr>)) target"
  shows "\<exists>k. proof_of_work E b = Some (b\<lparr>nonce := k\<rparr>, compute_hash E (b\<lparr>nonce := k\<rparr>)) \<and>
             startswith (compute_hash E (b\<lparr>nonce := k\<rparr>)) target \<and>
             (\<forall>j<k. \<not> startswith (compute_hash E (b\<lparr>nonce := j\<rparr>)) target)"
proof -
  let ?P = "\<lambda>n. startswith (compute_hash E (b\<lparr>nonce := n\<rparr>)) target"
  from assms obtain n where "?P n" ..
  then have l: "?P (LEAST n. ?P n)" by (rule LeastI)
  have m: "\<forall>j<(LEAST n. ?P n). \<not> ?P j" using not_less_Least by blast
  from proof_of_work_least[OF l m] l m show ?thesis by blast
qed

text \<open>
  The search returns exactly when some nonce meets the target. Nothing in the source
  bounds the search or ensures that such a nonce exists: that is a property of the hash
  function.
\<close>

lemma proof_of_work_returns_iff:
  "(\<exists>r. proof_of_work E b = Some r) \<longleftrightarrow>
   (\<exists>n. startswith (compute_hash E (b\<lparr>nonce := n\<rparr>)) target)"
proof
  assume "\<exists>r. proof_of_work E b = Some r"
  then obtain r where r: "proof_of_work E b = Some r" ..
  from proof_of_work_sound[OF r] have
    h: "snd r = compute_hash E (fst r)" and t: "startswith (snd r) target" and
    b0: "fst r = b\<lparr>nonce := 0\<rparr>\<lparr>nonce := nonce (fst r)\<rparr>"
    unfolding pow_post_def by blast+
  from b0 have b: "fst r = b\<lparr>nonce := nonce (fst r)\<rparr>" by simp
  have "compute_hash E (b\<lparr>nonce := nonce (fst r)\<rparr>) = snd r"
    unfolding h by (subst (2) b) (rule refl)
  with t have "startswith (compute_hash E (b\<lparr>nonce := nonce (fst r)\<rparr>)) target"
    by simp
  then show "\<exists>n. startswith (compute_hash E (b\<lparr>nonce := n\<rparr>)) target" ..
next
  assume "\<exists>n. startswith (compute_hash E (b\<lparr>nonce := n\<rparr>)) target"
  from proof_of_work_returns[OF this] show "\<exists>r. proof_of_work E b = Some r" by blast
qed

subsection \<open>What one call does to the invariants\<close>

lemma mine_Inr:
  assumes "mine E now s = Some (Inr (r, s'))"
  shows "(pending_transactions s = [] \<and> r = None \<and> s' = s) \<or>
         (pending_transactions s \<noteq> [] \<and> chain s \<noteq> [] \<and>
          (\<exists>nb. r = Some nb \<and>
                s' = s\<lparr>chain := chain s @ [nb], pending_transactions := []\<rparr> \<and>
                index nb = length (chain s) \<and>
                transactions nb = pending_transactions s \<and>
                timestamp nb = now \<and>
                previous_hash nb = compute_hash E (last (chain s)) \<and>
                hash nb = Some (compute_hash E nb) \<and>
                startswith (compute_hash E nb) target))"
proof (cases "pending_transactions s = []")
  case True
  with assms show ?thesis by (simp add: mine_def)
next
  case False
  note pend = this
  show ?thesis
  proof (cases "chain s = []")
    case True
    with pend assms show ?thesis by (simp add: mine_def)
  next
    case False
    let ?b = "Block_init now (length (chain s)) (pending_transactions s)
                (compute_hash E (last (chain s)))"
    from assms pend False obtain b h where
      pw: "proof_of_work E ?b = Some (b, h)" and
      r: "r = Some (b\<lparr>hash := Some h\<rparr>)" and
      s': "s' = s\<lparr>chain := chain s @ [b\<lparr>hash := Some h\<rparr>], pending_transactions := []\<rparr>"
      by (auto simp: mine_def Let_def split: option.splits)
    from proof_of_work_sound[OF pw] have
      h: "h = compute_hash E b" and t: "startswith h target" and
      b0: "b = ?b\<lparr>nonce := 0\<rparr>\<lparr>nonce := nonce b\<rparr>"
      unfolding pow_post_def fst_conv snd_conv by blast+
    from b0 have b: "b = ?b\<lparr>nonce := nonce b\<rparr>" by simp
    have f: "index b = length (chain s)" "transactions b = pending_transactions s"
      "timestamp b = now" "previous_hash b = compute_hash E (last (chain s))"
      by (subst b, simp add: Block_init_def)+
    show ?thesis
      using pend False r s' h t f by (simp add: compute_hash_hash_upd)
  qed
qed

lemma chain_inv_init: "chain_inv E (chain (TicketBlockchain_init E now))"
  by (simp add: chain_inv_def TicketBlockchain_init_def create_genesis_block_def
      Let_def Block_init_def compute_hash_def)

lemma txs_inv_init: "txs_inv (TicketBlockchain_init E now)"
  by (simp add: txs_inv_def TicketBlockchain_init_def create_genesis_block_def
      Let_def Block_init_def)

lemma chain_inv_append:
  assumes inv: "chain_inv E ch"
    and nb: "previous_hash nb = compute_hash E (last ch)"
      "hash nb = Some (compute_hash E nb)" "index nb = length ch"
      "startswith (compute_hash E nb) target" "transactions nb \<noteq> []"
  shows "chain_inv E (ch @ [nb])"
proof -
  from inv have ne: "ch \<noteq> []" by (simp add: chain_inv_def)
  then have l: "0 < length ch" by simp
  have g: "(ch @ [nb]) ! 0 = ch ! 0" using l by (simp add: nth_append)
  have a: "hash ((ch @ [nb]) ! i) = Some (compute_hash E ((ch @ [nb]) ! i)) \<and>
           index ((ch @ [nb]) ! i) = i" if "i < length (ch @ [nb])" for i
  proof (cases "i < length ch")
    case True
    with inv show ?thesis by (simp add: chain_inv_def nth_append)
  next
    case False
    with that have "i = length ch" by simp
    with nb show ?thesis by simp
  qed
  have b: "previous_hash ((ch @ [nb]) ! Suc i) = compute_hash E ((ch @ [nb]) ! i) \<and>
           startswith (compute_hash E ((ch @ [nb]) ! Suc i)) target \<and>
           transactions ((ch @ [nb]) ! Suc i) \<noteq> []" if "Suc i < length (ch @ [nb])" for i
  proof (cases "Suc i < length ch")
    case True
    with inv show ?thesis by (simp add: chain_inv_def nth_append)
  next
    case False
    with that have i: "Suc i = length ch" by simp
    then have "i = length ch - 1" "i < length ch" by simp_all
    then have "(ch @ [nb]) ! i = last ch" using ne by (simp add: nth_append last_conv_nth)
    moreover have "(ch @ [nb]) ! Suc i = nb" using i by simp
    ultimately show ?thesis using nb by simp
  qed
  from inv have gen: "index (ch ! 0) = 0" "transactions (ch ! 0) = []"
    "previous_hash (ch ! 0) = ''0''" "nonce (ch ! 0) = 0"
    by (simp_all add: chain_inv_def)
  show ?thesis
    unfolding chain_inv_def g using gen a b by simp
qed

lemma issue_ticket_chain [simp]: "chain (snd (issue_ticket u now own ev s)) = chain s"
  by (simp add: issue_ticket_def add_transaction_def Let_def)

lemma transfer_ticket_chain [simp]: "chain (snd (transfer_ticket now tid n s)) = chain s"
  by (simp add: transfer_ticket_def add_transaction_def Let_def split: option.splits)

lemma redeem_ticket_chain [simp]: "chain (snd (redeem_ticket now tid s)) = chain s"
  by (simp add: redeem_ticket_def add_transaction_def Let_def split: option.splits)

lemma verify_ticket_state [simp]: "snd (verify_ticket tid s) = s"
  by (simp add: verify_ticket_def split: option.splits)

lemma exec_call_chain_inv:
  assumes "chain_inv E (chain s)" and "exec_call E c s = Some s'"
  shows "chain_inv E (chain s')"
proof (cases c)
  case (Mine now)
  with assms(2) obtain r where m: "mine E now s = Some (Inr (r, s'))"
    by (auto split: option.splits sum.splits)
  from mine_Inr[OF m] show ?thesis
  proof
    assume "pending_transactions s = [] \<and> r = None \<and> s' = s"
    with assms(1) show ?thesis by simp
  next
    assume "pending_transactions s \<noteq> [] \<and> chain s \<noteq> [] \<and>
          (\<exists>nb. r = Some nb \<and>
                s' = s\<lparr>chain := chain s @ [nb], pending_transactions := []\<rparr> \<and>
                index nb = length (chain s) \<and>
                transactions nb = pending_transactions s \<and>
                timestamp nb = now \<and>
                previous_hash nb = compute_hash E (last (chain s)) \<and>
                hash nb = Some (compute_hash E nb) \<and>
                startswith (compute_hash E nb) target)"
    then obtain nb where p: "pending_transactions s \<noteq> []"
      and s': "s' = s\<lparr>chain := chain s @ [nb], pending_transactions := []\<rparr>"
      and nb: "index nb = length (chain s)" "transactions nb = pending_transactions s"
        "previous_hash nb = compute_hash E (last (chain s))"
        "hash nb = Some (compute_hash E nb)" "startswith (compute_hash E nb) target"
      by blast
    from chain_inv_append[OF assms(1) nb(3) nb(4) nb(1) nb(5)] nb(2) p s'
    show ?thesis by simp
  qed
qed (use assms in auto)

lemma run_chain_inv:
  "chain_inv E (chain s) \<Longrightarrow> run E cs s = Some s' \<Longrightarrow> chain_inv E (chain s')"
proof (induction cs arbitrary: s)
  case Nil
  then show ?case by simp
next
  case (Cons c cs)
  from Cons.prems(2) obtain s1 where c: "exec_call E c s = Some s1" and r: "run E cs s1 = Some s'"
    by (auto split: option.splits)
  from Cons.IH[OF exec_call_chain_inv[OF Cons.prems(1) c] r] show ?case .
qed

lemma add_transaction_txs_inv: "txs_inv s \<Longrightarrow> txs_inv (add_transaction tx s)"
  by (simp add: txs_inv_def add_transaction_def)

lemma tickets_update_txs_inv: "txs_inv (s\<lparr>tickets := t\<rparr>) = txs_inv s"
  by (simp add: txs_inv_def)

lemma exec_call_txs_inv:
  assumes "txs_inv s" and "exec_call E c s = Some s'"
  shows "txs_inv s'"
proof (cases c)
  case (Issue u now own ev)
  with assms show ?thesis
    by (auto simp: issue_ticket_def Let_def tickets_update_txs_inv add_transaction_txs_inv)
next
  case (Transfer now tid n)
  with assms show ?thesis
    by (auto simp: transfer_ticket_def Let_def tickets_update_txs_inv add_transaction_txs_inv
        split: option.splits)
next
  case (Redeem now tid)
  with assms show ?thesis
    by (auto simp: redeem_ticket_def Let_def tickets_update_txs_inv add_transaction_txs_inv
        split: option.splits)
next
  case (Verify tid)
  with assms show ?thesis by simp
next
  case (Mine now)
  with assms(2) obtain r where m: "mine E now s = Some (Inr (r, s'))"
    by (auto split: option.splits sum.splits)
  from mine_Inr[OF m] assms(1) show ?thesis
    by (auto simp: txs_inv_def)
qed

lemma run_txs_inv:
  "txs_inv s \<Longrightarrow> run E cs s = Some s' \<Longrightarrow> txs_inv s'"
proof (induction cs arbitrary: s)
  case Nil
  then show ?case by simp
next
  case (Cons c cs)
  from Cons.prems(2) obtain s1 where c: "exec_call E c s = Some s1" and r: "run E cs s1 = Some s'"
    by (auto split: option.splits)
  from Cons.IH[OF exec_call_txs_inv[OF Cons.prems(1) c] r] show ?case .
qed

lemma count_list_concat:
  "count_list (concat xss) x = sum_list (map (\<lambda>xs. count_list xs x) xss)"
  by (induction xss) simp_all

subsection \<open>The ticket operations\<close>

lemma transfer_ticket_rejected:
  "map_of (tickets s) tid = None \<or>
   (\<exists>t. map_of (tickets s) tid = Some t \<and> status t \<noteq> ''valid'') \<Longrightarrow>
   transfer_ticket now tid new_own s = (False, s)"
  by (auto simp: transfer_ticket_def)

lemma transfer_ticket_accepted:
  "map_of (tickets s) tid = Some t \<Longrightarrow> status t = ''valid'' \<Longrightarrow>
   transfer_ticket now tid new_own s =
     (True, s\<lparr>pending_transactions := pending_transactions s @
                  [TicketTransaction_init now ''transfer'' tid (ticket.owner t) None (Some new_own)],
               submitted := submitted s @
                  [TicketTransaction_init now ''transfer'' tid (ticket.owner t) None (Some new_own)],
               tickets := AList.update tid (t\<lparr>ticket.owner := new_own\<rparr>) (tickets s)\<rparr>)"
  by (simp add: transfer_ticket_def add_transaction_def Let_def)

lemma redeem_ticket_rejected:
  "map_of (tickets s) tid = None \<or>
   (\<exists>t. map_of (tickets s) tid = Some t \<and> status t \<noteq> ''valid'') \<Longrightarrow>
   redeem_ticket now tid s = (False, s)"
  by (auto simp: redeem_ticket_def)

lemma redeem_ticket_accepted:
  "map_of (tickets s) tid = Some t \<Longrightarrow> status t = ''valid'' \<Longrightarrow>
   redeem_ticket now tid s =
     (True, s\<lparr>pending_transactions := pending_transactions s @
                  [TicketTransaction_init now ''redeem'' tid (ticket.owner t) None None],
               submitted := submitted s @
                  [TicketTransaction_init now ''redeem'' tid (ticket.owner t) None None],
               tickets := AList.update tid (t\<lparr>status := ''redeemed''\<rparr>) (tickets s)\<rparr>)"
  by (simp add: redeem_ticket_def add_transaction_def Let_def)

lemma exec_call_keeps_closed_entry:
  assumes t: "map_of (tickets s) tid = Some t" "status t \<noteq> ''valid''"
    and c: "exec_call E c s = Some s'" "issued_uuid c \<noteq> Some tid"
  shows "map_of (tickets s') tid = Some t"
proof (cases c)
  case (Issue u now own ev)
  with c have "u \<noteq> tid" and "s' = snd (issue_ticket u now own ev s)" by simp_all
  with t show ?thesis
    by (simp add: issue_ticket_def add_transaction_def Let_def update_conv')
next
  case (Transfer now x n)
  with c have s': "s' = snd (transfer_ticket now x n s)" by simp
  show ?thesis
  proof (cases "x = tid")
    case True
    with t s' show ?thesis by (simp add: transfer_ticket_def)
  next
    case False
    with t s' show ?thesis
      by (simp add: transfer_ticket_def add_transaction_def Let_def update_conv'
          split: option.splits)
  qed
next
  case (Redeem now x)
  with c have s': "s' = snd (redeem_ticket now x s)" by simp
  show ?thesis
  proof (cases "x = tid")
    case True
    with t s' show ?thesis by (simp add: redeem_ticket_def)
  next
    case False
    with t s' show ?thesis
      by (simp add: redeem_ticket_def add_transaction_def Let_def update_conv'
          split: option.splits)
  qed
next
  case (Verify x)
  with c t show ?thesis by simp
next
  case (Mine now)
  with c obtain r where m: "mine E now s = Some (Inr (r, s'))"
    by (auto split: option.splits sum.splits)
  from mine_Inr[OF m] t show ?thesis by auto
qed

lemma run_keeps_closed_entry:
  "map_of (tickets s) tid = Some t \<Longrightarrow> status t \<noteq> ''valid'' \<Longrightarrow>
   run E cs s = Some s' \<Longrightarrow> \<forall>c\<in>set cs. issued_uuid c \<noteq> Some tid \<Longrightarrow>
   map_of (tickets s') tid = Some t"
proof (induction cs arbitrary: s)
  case Nil
  then show ?case by simp
next
  case (Cons c cs)
  from Cons.prems(3) obtain s1 where c: "exec_call E c s = Some s1" and r: "run E cs s1 = Some s'"
    by (auto split: option.splits)
  from Cons.prems(4) have i: "issued_uuid c \<noteq> Some tid" "\<forall>c\<in>set cs. issued_uuid c \<noteq> Some tid"
    by simp_all
  from exec_call_keeps_closed_entry[OF Cons.prems(1,2) c i(1)]
  have "map_of (tickets s1) tid = Some t" .
  from Cons.IH[OF this Cons.prems(2) r i(2)] show ?case .
qed

section \<open>The claims\<close>

text \<open>
  In the claims below, a ledger is reachable when \<open>run\<close> returns it for some list of calls
  on a ledger made by \<open>TicketBlockchain_init\<close>: the calls may be any, with any clock
  readings and identifiers, and every \<open>mine\<close> among them has returned.
\<close>

text \<open>
  Claim C1 (hash-chain linkage). In every reachable ledger, each block at an index
  \<open>i > 0\<close> of the chain carries as \<open>previous_hash\<close> the stored \<open>hash\<close> of the block at
  index \<open>i - 1\<close>.
\<close>

theorem hash_chain_linkage:
  assumes "run E cs (TicketBlockchain_init E t0) = Some s"
    and "0 < i" and "i < length (chain s)"
  shows "hash (chain s ! (i - 1)) = Some (previous_hash (chain s ! i))"
proof -
  have inv: "chain_inv E (chain s)"
    using run_chain_inv[OF chain_inv_init assms(1)] .
  from assms(2) obtain k where i: "i = Suc k" by (cases i) simp_all
  with assms(3) have k: "Suc k < length (chain s)" "k < length (chain s)" by simp_all
  from inv k have "previous_hash (chain s ! Suc k) = compute_hash E (chain s ! k)"
    and "hash (chain s ! k) = Some (compute_hash E (chain s ! k))"
    unfolding chain_inv_def by blast+
  with i show ?thesis by simp
qed

theorem hash_chain_linkage_witness:
  "\<exists>s. run stub_env demo_flow (TicketBlockchain_init stub_env 0) = Some s \<and>
       (0::nat) < 2 \<and> 2 < length (chain s) \<and>
       hash (chain s ! (2 - 1)) = Some (previous_hash (chain s ! 2))"
proof -
  define s where "s = the (run stub_env demo_flow (TicketBlockchain_init stub_env 0))"
  have r: "run stub_env demo_flow (TicketBlockchain_init stub_env 0) = Some s"
    unfolding s_def by code_simp
  have p: "(0::nat) < 2" by simp
  have l: "2 < length (chain s)"
    unfolding s_def by code_simp
  from hash_chain_linkage[OF r p l] r p l show ?thesis by blast
qed

text \<open>
  Claim C2 (sealed-block hash validity). In every reachable ledger, the stored \<open>hash\<close> of
  every block of the chain is \<open>compute_hash\<close> of the block as stored; for every block but
  the one at index 0 that digest starts with \<open>difficulty\<close>, that is two, characters
  \<open>0\<close>; and the block at index 0 has index 0, no transactions, \<open>previous_hash\<close>
  \<open>"0"\<close> and nonce 0, its hash being computed like the others without the requirement on
  its first characters.
\<close>

theorem sealed_block_hash_validity:
  assumes "run E cs (TicketBlockchain_init E t0) = Some s"
  shows "(\<forall>b\<in>set (chain s). hash b = Some (compute_hash E b)) \<and>
         (\<forall>i. 0 < i \<and> i < length (chain s) \<longrightarrow>
              (\<exists>h. hash (chain s ! i) = Some h \<and> startswith h (replicate difficulty (CHR ''0'')))) \<and>
         difficulty = 2 \<and>
         chain s \<noteq> [] \<and> index (chain s ! 0) = 0 \<and> transactions (chain s ! 0) = [] \<and>
         previous_hash (chain s ! 0) = ''0'' \<and> nonce (chain s ! 0) = 0"
proof -
  have inv: "chain_inv E (chain s)"
    using run_chain_inv[OF chain_inv_init assms(1)] .
  have a: "\<forall>b\<in>set (chain s). hash b = Some (compute_hash E b)"
  proof
    fix b assume "b \<in> set (chain s)"
    then obtain i where "i < length (chain s)" "b = chain s ! i"
      by (auto simp: in_set_conv_nth)
    with inv show "hash b = Some (compute_hash E b)"
      unfolding chain_inv_def by blast
  qed
  have b: "\<exists>h. hash (chain s ! i) = Some h \<and> startswith h target"
    if "0 < i \<and> i < length (chain s)" for i
  proof -
    from that obtain k where i: "i = Suc k" by (cases i) simp_all
    with that have k: "Suc k < length (chain s)" by simp
    with inv have "hash (chain s ! Suc k) = Some (compute_hash E (chain s ! Suc k))"
      and "startswith (compute_hash E (chain s ! Suc k)) target"
      unfolding chain_inv_def by blast+
    with i show ?thesis by simp
  qed
  from inv have g: "chain s \<noteq> []" "index (chain s ! 0) = 0" "transactions (chain s ! 0) = []"
    "previous_hash (chain s ! 0) = ''0''" "nonce (chain s ! 0) = 0"
    unfolding chain_inv_def by blast+
  from a b g show ?thesis by (simp add: difficulty_def)
qed

theorem sealed_block_hash_validity_witness:
  "\<exists>s. run stub_env demo_flow (TicketBlockchain_init stub_env 0) = Some s \<and>
       chain s ! 3 \<in> set (chain s) \<and> hash (chain s ! 3) = Some (compute_hash stub_env (chain s ! 3)) \<and>
       0 < (3::nat) \<and> 3 < length (chain s) \<and>
       (\<exists>h. hash (chain s ! 3) = Some h \<and> startswith h ''00'') \<and>
       hash (chain s ! 0) = Some ''9etransact''"
proof -
  define s where "s = the (run stub_env demo_flow (TicketBlockchain_init stub_env 0))"
  have r: "run stub_env demo_flow (TicketBlockchain_init stub_env 0) = Some s"
    unfolding s_def by code_simp
  have l: "0 < (3::nat) \<and> 3 < length (chain s)"
    unfolding s_def by code_simp
  then have m: "chain s ! 3 \<in> set (chain s)" by simp
  have g: "hash (chain s ! 0) = Some ''9etransact''"
    unfolding s_def by code_simp
  have t: "replicate difficulty (CHR ''0'') = ''00''" by code_simp
  from sealed_block_hash_validity[OF r] have
    "\<forall>b\<in>set (chain s). hash b = Some (compute_hash stub_env b)"
    "\<forall>i. 0 < i \<and> i < length (chain s) \<longrightarrow> (\<exists>h. hash (chain s ! i) = Some h \<and> startswith h ''00'')"
    unfolding t by blast+
  with r l m g show ?thesis by blast
qed

text \<open>
  Claim C3 (\<open>mine\<close> seals the pending transactions). On a reachable ledger whose buffer
  is not empty, and where some nonce makes the digest of the new block start with the
  target, \<open>mine\<close> returns: the block it returns has the length of the chain before the
  call as index, the pending transactions in their order as transactions and the stored
  hash of the last block as \<open>previous_hash\<close>; it is sealed at the first nonce that meets
  the target; the chain after the call is the chain before with that block appended, and
  the buffer is empty.
\<close>

theorem mine_seals_pending:
  assumes "run E cs (TicketBlockchain_init E t0) = Some s"
    and "pending_transactions s \<noteq> []"
    and "\<exists>n. startswith (compute_hash E
            (Block_init now (length (chain s)) (pending_transactions s)
               (compute_hash E (last (chain s)))\<lparr>nonce := n\<rparr>)) target"
  shows "\<exists>new_block.
           mine E now s = Some (Inr (Some new_block,
               s\<lparr>chain := chain s @ [new_block], pending_transactions := []\<rparr>)) \<and>
           index new_block = length (chain s) \<and>
           transactions new_block = pending_transactions s \<and>
           Some (previous_hash new_block) = hash (last (chain s)) \<and>
           hash new_block = Some (compute_hash E new_block) \<and>
           startswith (compute_hash E new_block) target \<and>
           (\<forall>j<nonce new_block. \<not> startswith (compute_hash E (new_block\<lparr>nonce := j\<rparr>)) target)"
proof -
  let ?b = "Block_init now (length (chain s)) (pending_transactions s)
              (compute_hash E (last (chain s)))"
  have inv: "chain_inv E (chain s)"
    using run_chain_inv[OF chain_inv_init assms(1)] .
  then have ne: "chain s \<noteq> []" by (simp add: chain_inv_def)
  then have "last (chain s) = chain s ! (length (chain s) - 1)" "length (chain s) - 1 < length (chain s)"
    by (simp_all add: last_conv_nth)
  with inv have lh: "hash (last (chain s)) = Some (compute_hash E (last (chain s)))"
    unfolding chain_inv_def by metis
  from proof_of_work_returns[OF assms(3)] obtain k where
    pw: "proof_of_work E ?b = Some (?b\<lparr>nonce := k\<rparr>, compute_hash E (?b\<lparr>nonce := k\<rparr>))"
    and t: "startswith (compute_hash E (?b\<lparr>nonce := k\<rparr>)) target"
    and m: "\<forall>j<k. \<not> startswith (compute_hash E (?b\<lparr>nonce := j\<rparr>)) target"
    by blast
  let ?nb = "?b\<lparr>nonce := k, hash := Some (compute_hash E (?b\<lparr>nonce := k\<rparr>))\<rparr>"
  have mi: "mine E now s = Some (Inr (Some ?nb,
               s\<lparr>chain := chain s @ [?nb], pending_transactions := []\<rparr>))"
    using assms(2) ne pw by (simp add: mine_def Let_def)
  have c: "compute_hash E ?nb = compute_hash E (?b\<lparr>nonce := k\<rparr>)"
    by (simp add: compute_hash_def)
  have c': "compute_hash E (?nb\<lparr>nonce := j\<rparr>) = compute_hash E (?b\<lparr>nonce := j\<rparr>)" for j
    by (simp add: compute_hash_def)
  have f: "index ?nb = length (chain s)" "transactions ?nb = pending_transactions s"
    "previous_hash ?nb = compute_hash E (last (chain s))" "nonce ?nb = k"
    by (simp_all add: Block_init_def)
  show ?thesis
  proof (intro exI[of _ ?nb] conjI)
    show "mine E now s = Some (Inr (Some ?nb,
               s\<lparr>chain := chain s @ [?nb], pending_transactions := []\<rparr>))" by (rule mi)
    show "index ?nb = length (chain s)" by (rule f)
    show "transactions ?nb = pending_transactions s" by (rule f)
    show "Some (previous_hash ?nb) = hash (last (chain s))" using f(3) lh by simp
    show "hash ?nb = Some (compute_hash E ?nb)" unfolding c by simp
    show "startswith (compute_hash E ?nb) target" unfolding c by (rule t)
    show "\<forall>j<nonce ?nb. \<not> startswith (compute_hash E (?nb\<lparr>nonce := j\<rparr>)) target"
      unfolding c' f(4) by (rule m)
  qed
qed

theorem mine_seals_pending_witness:
  "\<exists>s new_block.
      run stub_env [Issue ''t1'' 1 ''Alice'' ''Rock Concert''] (TicketBlockchain_init stub_env 0) = Some s \<and>
      pending_transactions s \<noteq> [] \<and>
      startswith (compute_hash stub_env
            (Block_init 2 (length (chain s)) (pending_transactions s)
               (compute_hash stub_env (last (chain s)))\<lparr>nonce := 1\<rparr>)) ''00'' \<and>
      mine stub_env 2 s = Some (Inr (Some new_block,
               s\<lparr>chain := chain s @ [new_block], pending_transactions := []\<rparr>)) \<and>
      index new_block = length (chain s) \<and>
      transactions new_block = pending_transactions s \<and>
      Some (previous_hash new_block) = hash (last (chain s))"
proof -
  define s where "s = the (run stub_env [Issue ''t1'' 1 ''Alice'' ''Rock Concert'']
                              (TicketBlockchain_init stub_env 0))"
  have r: "run stub_env [Issue ''t1'' 1 ''Alice'' ''Rock Concert'']
             (TicketBlockchain_init stub_env 0) = Some s"
    unfolding s_def by code_simp
  have p: "pending_transactions s \<noteq> []"
    unfolding s_def by code_simp
  have t: "replicate difficulty (CHR ''0'') = ''00''" by code_simp
  have n: "startswith (compute_hash stub_env
            (Block_init 2 (length (chain s)) (pending_transactions s)
               (compute_hash stub_env (last (chain s)))\<lparr>nonce := 1\<rparr>)) ''00''"
    unfolding s_def by code_simp
  then have e: "\<exists>n. startswith (compute_hash stub_env
            (Block_init 2 (length (chain s)) (pending_transactions s)
               (compute_hash stub_env (last (chain s)))\<lparr>nonce := n\<rparr>)) target"
    unfolding t by blast
  from mine_seals_pending[OF r p e] r p n show ?thesis by blast
qed

text \<open>
  Claim C4 (transaction conservation). In every reachable ledger, the transactions handed
  to \<open>add_transaction\<close> so far, in order, are the transactions of the blocks of the chain,
  block after block, followed by the pending buffer. So every transaction is in the
  blocks and the buffer together exactly as many times as it was handed in: none is lost,
  none is in two places.
\<close>

theorem transaction_conservation:
  assumes "run E cs (TicketBlockchain_init E t0) = Some s"
  shows "submitted s = concat (map transactions (chain s)) @ pending_transactions s \<and>
         (\<forall>tx. count_list (submitted s) tx =
                 (\<Sum>b\<leftarrow>chain s. count_list (transactions b) tx) +
                 count_list (pending_transactions s) tx)"
proof -
  have e: "submitted s = concat (map transactions (chain s)) @ pending_transactions s"
    using run_txs_inv[OF txs_inv_init assms] by (simp add: txs_inv_def)
  have "count_list (submitted s) tx =
          (\<Sum>b\<leftarrow>chain s. count_list (transactions b) tx) +
          count_list (pending_transactions s) tx" for tx
    unfolding e by (simp add: count_list_concat comp_def)
  with e show ?thesis by blast
qed

theorem transaction_conservation_witness:
  "\<exists>s. run stub_env (demo_flow @ [Issue ''t2'' 7 ''Carol'' ''Rock Concert''])
            (TicketBlockchain_init stub_env 0) = Some s \<and>
       length (submitted s) = 4 \<and> length (pending_transactions s) = 1 \<and>
       submitted s = concat (map transactions (chain s)) @ pending_transactions s"
proof -
  define s where "s = the (run stub_env (demo_flow @ [Issue ''t2'' 7 ''Carol'' ''Rock Concert''])
            (TicketBlockchain_init stub_env 0))"
  have r: "run stub_env (demo_flow @ [Issue ''t2'' 7 ''Carol'' ''Rock Concert''])
            (TicketBlockchain_init stub_env 0) = Some s"
    unfolding s_def by code_simp
  have l: "length (submitted s) = 4 \<and> length (pending_transactions s) = 1"
    unfolding s_def by code_simp
  from transaction_conservation[OF r] r l show ?thesis by blast
qed

text \<open>
  Claim C5 (\<open>transfer_ticket\<close>). The call returns \<open>False\<close> with the ledger unchanged exactly
  when the identifier is not in the registry or the status of its entry is not
  \<open>"valid"\<close>. Otherwise it returns \<open>True\<close>, the buffer gains one transaction, of type
  \<open>"transfer"\<close>, whose owner is the owner before the call and whose \<open>new_owner\<close> is the one
  given, and the entry keeps its place, status and event with the new owner.
\<close>

theorem transfer_ticket_result:
  "(transfer_ticket now tid new_own s = (False, s) \<longleftrightarrow>
      map_of (tickets s) tid = None \<or>
      (\<exists>t. map_of (tickets s) tid = Some t \<and> status t \<noteq> ''valid'')) \<and>
   (\<forall>t. map_of (tickets s) tid = Some t \<and> status t = ''valid'' \<longrightarrow>
      fst (transfer_ticket now tid new_own s) \<and>
      pending_transactions (snd (transfer_ticket now tid new_own s)) =
        pending_transactions s @
          [\<lparr>tx_type = ''transfer'', ticket_id = tid, TicketTransaction.owner = ticket.owner t,
            TicketTransaction.event = None, new_owner = Some new_own,
            TicketTransaction.timestamp = now\<rparr>] \<and>
      tickets (snd (transfer_ticket now tid new_own s)) =
        AList.update tid (t\<lparr>ticket.owner := new_own\<rparr>) (tickets s) \<and>
      map_of (tickets (snd (transfer_ticket now tid new_own s))) tid =
        Some \<lparr>ticket.owner = new_own, status = status t, ticket.event = ticket.event t\<rparr> \<and>
      chain (snd (transfer_ticket now tid new_own s)) = chain s)"
proof -
  have rej: "transfer_ticket now tid new_own s = (False, s) \<longleftrightarrow>
      map_of (tickets s) tid = None \<or>
      (\<exists>t. map_of (tickets s) tid = Some t \<and> status t \<noteq> ''valid'')"
  proof
    assume r: "transfer_ticket now tid new_own s = (False, s)"
    show "map_of (tickets s) tid = None \<or>
        (\<exists>t. map_of (tickets s) tid = Some t \<and> status t \<noteq> ''valid'')"
    proof (rule ccontr)
      assume "\<not> ?thesis"
      then obtain t where t: "map_of (tickets s) tid = Some t" "status t = ''valid''"
        by auto
      from transfer_ticket_accepted[OF t, of now new_own] r show False by simp
    qed
  next
    assume "map_of (tickets s) tid = None \<or>
        (\<exists>t. map_of (tickets s) tid = Some t \<and> status t \<noteq> ''valid'')"
    then show "transfer_ticket now tid new_own s = (False, s)"
      by (rule transfer_ticket_rejected)
  qed
  have acc: "fst (transfer_ticket now tid new_own s) \<and>
      pending_transactions (snd (transfer_ticket now tid new_own s)) =
        pending_transactions s @
          [\<lparr>tx_type = ''transfer'', ticket_id = tid, TicketTransaction.owner = ticket.owner t,
            TicketTransaction.event = None, new_owner = Some new_own,
            TicketTransaction.timestamp = now\<rparr>] \<and>
      tickets (snd (transfer_ticket now tid new_own s)) =
        AList.update tid (t\<lparr>ticket.owner := new_own\<rparr>) (tickets s) \<and>
      map_of (tickets (snd (transfer_ticket now tid new_own s))) tid =
        Some \<lparr>ticket.owner = new_own, status = status t, ticket.event = ticket.event t\<rparr> \<and>
      chain (snd (transfer_ticket now tid new_own s)) = chain s"
    if "map_of (tickets s) tid = Some t \<and> status t = ''valid''" for t
  proof -
    from that have t: "map_of (tickets s) tid = Some t" "status t = ''valid''" by simp_all
    show ?thesis
      unfolding transfer_ticket_accepted[OF t]
      by (simp add: TicketTransaction_init_def update_conv')
  qed
  from rej acc show ?thesis by blast
qed

theorem transfer_ticket_result_witness:
  "\<exists>s. s = snd (issue_ticket ''t1'' 1 ''Alice'' ''Rock Concert'' (TicketBlockchain_init stub_env 0)) \<and>
     map_of (tickets s) ''t1'' =
       Some \<lparr>ticket.owner = ''Alice'', status = ''valid'', ticket.event = ''Rock Concert''\<rparr> \<and>
     fst (transfer_ticket 3 ''t1'' ''Bob'' s) \<and>
     pending_transactions (snd (transfer_ticket 3 ''t1'' ''Bob'' s)) =
       pending_transactions s @
         [\<lparr>tx_type = ''transfer'', ticket_id = ''t1'', TicketTransaction.owner = ''Alice'',
           TicketTransaction.event = None, new_owner = Some ''Bob'',
           TicketTransaction.timestamp = 3\<rparr>] \<and>
     map_of (tickets (snd (transfer_ticket 3 ''t1'' ''Bob'' s))) ''t1'' =
       Some \<lparr>ticket.owner = ''Bob'', status = ''valid'', ticket.event = ''Rock Concert''\<rparr> \<and>
     map_of (tickets s) ''t9'' = None \<and>
     transfer_ticket 3 ''t9'' ''Bob'' s = (False, s)"
proof -
  define s where
    "s = snd (issue_ticket ''t1'' 1 ''Alice'' ''Rock Concert'' (TicketBlockchain_init stub_env 0))"
  let ?t = "\<lparr>ticket.owner = ''Alice'', status = ''valid'', ticket.event = ''Rock Concert''\<rparr>"
  have t: "map_of (tickets s) ''t1'' = Some ?t \<and> status ?t = ''valid''"
    unfolding s_def by code_simp
  have u: "map_of (tickets s) ''t9'' = None"
    unfolding s_def by code_simp
  from transfer_ticket_result[of 3 "''t1''" "''Bob''" s] t
  have a: "fst (transfer_ticket 3 ''t1'' ''Bob'' s) \<and>
     pending_transactions (snd (transfer_ticket 3 ''t1'' ''Bob'' s)) =
       pending_transactions s @
         [\<lparr>tx_type = ''transfer'', ticket_id = ''t1'', TicketTransaction.owner = ''Alice'',
           TicketTransaction.event = None, new_owner = Some ''Bob'',
           TicketTransaction.timestamp = 3\<rparr>] \<and>
     map_of (tickets (snd (transfer_ticket 3 ''t1'' ''Bob'' s))) ''t1'' =
       Some \<lparr>ticket.owner = ''Bob'', status = ''valid'', ticket.event = ''Rock Concert''\<rparr>"
    by (simp add: update_conv')
  from transfer_ticket_result[of 3 "''t9''" "''Bob''" s] u
  have b: "transfer_ticket 3 ''t9'' ''Bob'' s = (False, s)" by blast
  from t u a b show ?thesis unfolding s_def by blast
qed

text \<open>
  Claim C6 (redemption is terminal). After a \<open>redeem_ticket\<close> that returned \<open>True\<close>, and
  after any list of further calls in which \<open>issue_ticket\<close> does not draw the identifier of
  the redeemed ticket again, the entry of the ticket is the one the redemption left, with
  status \<open>"redeemed"\<close>, and both \<open>transfer_ticket\<close> and \<open>redeem_ticket\<close> on it return
  \<open>False\<close> and leave the ledger as it is.
\<close>

theorem redemption_is_terminal:
  assumes "fst (redeem_ticket now tid s0)"
    and "run E cs (snd (redeem_ticket now tid s0)) = Some s"
    and "\<forall>c\<in>set cs. issued_uuid c \<noteq> Some tid"
  shows "(\<exists>t. map_of (tickets (snd (redeem_ticket now tid s0))) tid = Some t \<and>
              status t = ''redeemed'' \<and> map_of (tickets s) tid = Some t) \<and>
         transfer_ticket now1 tid anyone s = (False, s) \<and>
         redeem_ticket now2 tid s = (False, s)"
proof -
  from assms(1) obtain t0 where t0: "map_of (tickets s0) tid = Some t0" "status t0 = ''valid''"
    by (auto simp: redeem_ticket_def split: option.splits if_splits)
  let ?t = "t0\<lparr>status := ''redeemed''\<rparr>"
  have e1: "map_of (tickets (snd (redeem_ticket now tid s0))) tid = Some ?t"
    unfolding redeem_ticket_accepted[OF t0] by (simp add: update_conv')
  have st: "status ?t = ''redeemed''" "status ?t \<noteq> ''valid''" by simp_all
  from run_keeps_closed_entry[OF e1 st(2) assms(2) assms(3)]
  have e: "map_of (tickets s) tid = Some ?t" .
  then have nv: "map_of (tickets s) tid = None \<or>
     (\<exists>t. map_of (tickets s) tid = Some t \<and> status t \<noteq> ''valid'')"
    using st(2) by blast
  from e1 e st(1) transfer_ticket_rejected[OF nv] redeem_ticket_rejected[OF nv]
  show ?thesis by blast
qed

theorem redemption_is_terminal_witness:
  "\<exists>s0 s. s0 = snd (issue_ticket ''t1'' 1 ''Alice'' ''Rock Concert'' (TicketBlockchain_init stub_env 0)) \<and>
     fst (redeem_ticket 2 ''t1'' s0) \<and>
     run stub_env [Mine 3, Transfer 4 ''t1'' ''Bob'', Issue ''t2'' 5 ''Carol'' ''Rock Concert'',
                   Redeem 6 ''t1'', Mine 7, Verify ''t1'']
        (snd (redeem_ticket 2 ''t1'' s0)) = Some s \<and>
     length (chain s) = 3 \<and>
     (\<exists>t. status t = ''redeemed'' \<and> map_of (tickets s) ''t1'' = Some t) \<and>
     transfer_ticket 8 ''t1'' ''Dave'' s = (False, s) \<and>
     redeem_ticket 9 ''t1'' s = (False, s)"
proof -
  define s0 where
    "s0 = snd (issue_ticket ''t1'' 1 ''Alice'' ''Rock Concert'' (TicketBlockchain_init stub_env 0))"
  define cs where
    "cs = [Mine 3, Transfer 4 ''t1'' ''Bob'', Issue ''t2'' 5 ''Carol'' ''Rock Concert'',
           Redeem 6 ''t1'', Mine 7, Verify ''t1'']"
  define s where "s = the (run stub_env cs (snd (redeem_ticket 2 ''t1'' s0)))"
  have a: "fst (redeem_ticket 2 ''t1'' s0)"
    unfolding s0_def by code_simp
  have r: "run stub_env cs (snd (redeem_ticket 2 ''t1'' s0)) = Some s"
    unfolding s_def s0_def cs_def by code_simp
  have i: "\<forall>c\<in>set cs. issued_uuid c \<noteq> Some ''t1''"
    unfolding cs_def by simp
  have l: "length (chain s) = 3"
    unfolding s_def s0_def cs_def by code_simp
  from redemption_is_terminal[OF a r i, of 8 "''Dave''" 9] a r l
  show ?thesis unfolding s0_def cs_def by blast
qed

text \<open>
  Claim C7 (\<open>mine\<close> on an empty buffer). When the pending buffer is empty, \<open>mine\<close>
  returns \<open>None\<close> and the ledger after the call is the ledger before it: chain, buffer and
  registry are unchanged.
\<close>

theorem mine_empty_is_noop:
  assumes "pending_transactions s = []"
  shows "mine E now s = Some (Inr (None, s))"
  using assms by (simp add: mine_def)

theorem mine_empty_is_noop_witness:
  "pending_transactions (TicketBlockchain_init stub_env 0) = [] \<and>
   mine stub_env 1 (TicketBlockchain_init stub_env 0) =
     Some (Inr (None, TicketBlockchain_init stub_env 0))"
proof -
  have p: "pending_transactions (TicketBlockchain_init stub_env 0) = []"
    by code_simp
  from mine_empty_is_noop[OF p] p show ?thesis by blast
qed

text \<open>
  Claim C9 (\<open>verify_ticket\<close>). The call leaves the ledger as it is and returns what the
  registry holds for the identifier: \<open>None\<close> when it is absent, the entry otherwise. A
  second call returns the same.
\<close>

theorem verify_ticket_pure_read:
  "snd (verify_ticket tid s) = s \<and>
   fst (verify_ticket tid s) = map_of (tickets s) tid \<and>
   verify_ticket tid (snd (verify_ticket tid s)) = verify_ticket tid s"
  by (simp add: verify_ticket_def split: option.splits)

theorem verify_ticket_pure_read_witness:
  "\<exists>s. run stub_env demo_flow (TicketBlockchain_init stub_env 0) = Some s \<and>
     verify_ticket ''t1'' s =
       (Some \<lparr>ticket.owner = ''Bob'', status = ''redeemed'', ticket.event = ''Rock Concert''\<rparr>, s) \<and>
     verify_ticket ''t9'' s = (None, s)"
proof -
  define s where "s = the (run stub_env demo_flow (TicketBlockchain_init stub_env 0))"
  have r: "run stub_env demo_flow (TicketBlockchain_init stub_env 0) = Some s"
    unfolding s_def by code_simp
  have m: "map_of (tickets s) ''t1'' =
      Some \<lparr>ticket.owner = ''Bob'', status = ''redeemed'', ticket.event = ''Rock Concert''\<rparr>"
    "map_of (tickets s) ''t9'' = None"
    unfolding s_def by code_simp+
  have "verify_ticket ''t1'' s =
       (Some \<lparr>ticket.owner = ''Bob'', status = ''redeemed'', ticket.event = ''Rock Concert''\<rparr>, s)"
    using verify_ticket_pure_read[of "''t1''" s] m(1) by (simp add: prod_eq_iff)
  moreover have "verify_ticket ''t9'' s = (None, s)"
    using verify_ticket_pure_read[of "''t9''" s] m(2) by (simp add: prod_eq_iff)
  ultimately show ?thesis using r by blast
qed

text \<open>
  Claim C10 (frame). None of \<open>issue_ticket\<close>, \<open>transfer_ticket\<close>, \<open>redeem_ticket\<close> and
  \<open>verify_ticket\<close> changes the chain. \<open>transfer_ticket\<close> and \<open>redeem_ticket\<close> leave
  the entries of all other tickets, and the keys of the registry, unchanged;
  \<open>transfer_ticket\<close> keeps the event and the status of the entry it is called on, and
  \<open>redeem_ticket\<close> keeps its owner and its event.
\<close>

theorem facade_frame:
  "chain (snd (issue_ticket uuid now own ev s)) = chain s \<and>
   chain (snd (transfer_ticket now tid new_own s)) = chain s \<and>
   chain (snd (redeem_ticket now tid s)) = chain s \<and>
   chain (snd (verify_ticket tid s)) = chain s \<and>
   (\<forall>u. u \<noteq> tid \<longrightarrow>
        map_of (tickets (snd (transfer_ticket now tid new_own s))) u = map_of (tickets s) u \<and>
        map_of (tickets (snd (redeem_ticket now tid s))) u = map_of (tickets s) u) \<and>
   map fst (tickets (snd (transfer_ticket now tid new_own s))) = map fst (tickets s) \<and>
   map fst (tickets (snd (redeem_ticket now tid s))) = map fst (tickets s) \<and>
   (\<forall>t. map_of (tickets s) tid = Some t \<longrightarrow>
        (\<exists>t'. map_of (tickets (snd (transfer_ticket now tid new_own s))) tid = Some t' \<and>
              ticket.event t' = ticket.event t \<and> status t' = status t) \<and>
        (\<exists>t'. map_of (tickets (snd (redeem_ticket now tid s))) tid = Some t' \<and>
              ticket.owner t' = ticket.owner t \<and> ticket.event t' = ticket.event t))"
proof -
  have others: "map_of (tickets (snd (transfer_ticket now tid new_own s))) u = map_of (tickets s) u \<and>
        map_of (tickets (snd (redeem_ticket now tid s))) u = map_of (tickets s) u"
    if "u \<noteq> tid" for u
    using that
    by (simp add: transfer_ticket_def redeem_ticket_def add_transaction_def Let_def update_conv'
        split: option.splits)
  have present: "map fst (AList.update tid v (tickets s)) = map fst (tickets s)"
    if "map_of (tickets s) tid = Some t" for t v
  proof -
    from that have "tid \<in> fst ` set (tickets s)"
      by (metis map_of_eq_None_iff option.distinct(1))
    then show ?thesis by (simp add: update_keys)
  qed
  have keys1: "map fst (tickets (snd (transfer_ticket now tid new_own s))) = map fst (tickets s)"
    by (simp add: transfer_ticket_def add_transaction_def Let_def present split: option.splits)
  have keys2: "map fst (tickets (snd (redeem_ticket now tid s))) = map fst (tickets s)"
    by (simp add: redeem_ticket_def add_transaction_def Let_def present split: option.splits)
  note keys = keys1 keys2
  have own: "(\<exists>t'. map_of (tickets (snd (transfer_ticket now tid new_own s))) tid = Some t' \<and>
              ticket.event t' = ticket.event t \<and> status t' = status t) \<and>
        (\<exists>t'. map_of (tickets (snd (redeem_ticket now tid s))) tid = Some t' \<and>
              ticket.owner t' = ticket.owner t \<and> ticket.event t' = ticket.event t)"
    if "map_of (tickets s) tid = Some t" for t
    using that
    by (simp add: transfer_ticket_def redeem_ticket_def add_transaction_def Let_def update_conv')
  from others keys own show ?thesis by simp
qed

theorem facade_frame_witness:
  "\<exists>s. s = snd (issue_ticket ''t2'' 2 ''Carol'' ''Jazz Night''
              (snd (issue_ticket ''t1'' 1 ''Alice'' ''Rock Concert''
                 (TicketBlockchain_init stub_env 0)))) \<and>
     ''t2'' \<noteq> ''t1'' \<and>
     map_of (tickets s) ''t1'' =
       Some \<lparr>ticket.owner = ''Alice'', status = ''valid'', ticket.event = ''Rock Concert''\<rparr> \<and>
     fst (transfer_ticket 3 ''t1'' ''Bob'' s) \<and> fst (redeem_ticket 3 ''t1'' s) \<and>
     map_of (tickets (snd (transfer_ticket 3 ''t1'' ''Bob'' s))) ''t2'' = map_of (tickets s) ''t2'' \<and>
     map_of (tickets (snd (redeem_ticket 3 ''t1'' s))) ''t2'' = map_of (tickets s) ''t2'' \<and>
     chain (snd (transfer_ticket 3 ''t1'' ''Bob'' s)) = chain s \<and>
     (\<exists>t'. map_of (tickets (snd (transfer_ticket 3 ''t1'' ''Bob'' s))) ''t1'' = Some t' \<and>
           ticket.event t' = ''Rock Concert'' \<and> status t' = ''valid'') \<and>
     (\<exists>t'. map_of (tickets (snd (redeem_ticket 3 ''t1'' s))) ''t1'' = Some t' \<and>
           ticket.owner t' = ''Alice'' \<and> ticket.event t' = ''Rock Concert'')"
proof -
  define s where
    "s = snd (issue_ticket ''t2'' 2 ''Carol'' ''Jazz Night''
              (snd (issue_ticket ''t1'' 1 ''Alice'' ''Rock Concert''
                 (TicketBlockchain_init stub_env 0))))"
  let ?t = "\<lparr>ticket.owner = ''Alice'', status = ''valid'', ticket.event = ''Rock Concert''\<rparr>"
  have n: "''t2'' \<noteq> ''t1''" by simp
  have t: "map_of (tickets s) ''t1'' = Some ?t"
    unfolding s_def by code_simp
  have ok: "fst (transfer_ticket 3 ''t1'' ''Bob'' s)" "fst (redeem_ticket 3 ''t1'' s)"
    unfolding s_def by code_simp+
  note f = facade_frame[of "''t0''" 3 "''x''" "''y''" s "''t1''" "''Bob''"]
  from f n have o:
    "map_of (tickets (snd (transfer_ticket 3 ''t1'' ''Bob'' s))) ''t2'' = map_of (tickets s) ''t2''"
    "map_of (tickets (snd (redeem_ticket 3 ''t1'' s))) ''t2'' = map_of (tickets s) ''t2''"
    by simp_all
  from f have c: "chain (snd (transfer_ticket 3 ''t1'' ''Bob'' s)) = chain s" by simp
  from f t have e:
    "\<exists>t'. map_of (tickets (snd (transfer_ticket 3 ''t1'' ''Bob'' s))) ''t1'' = Some t' \<and>
           ticket.event t' = ticket.event ?t \<and> status t' = status ?t"
    "\<exists>t'. map_of (tickets (snd (redeem_ticket 3 ''t1'' s))) ''t1'' = Some t' \<and>
           ticket.owner t' = ticket.owner ?t \<and> ticket.event t' = ticket.event ?t"
    by simp_all
  then have e':
    "\<exists>t'. map_of (tickets (snd (transfer_ticket 3 ''t1'' ''Bob'' s))) ''t1'' = Some t' \<and>
           ticket.event t' = ''Rock Concert'' \<and> status t' = ''valid''"
    "\<exists>t'. map_of (tickets (snd (redeem_ticket 3 ''t1'' s))) ''t1'' = Some t' \<and>
           ticket.owner t' = ''Alice'' \<and> ticket.event t' = ''Rock Concert''"
    by simp_all
  show ?thesis
    by (intro exI[of _ s] conjI) (rule s_def n t ok o c e')+
qed

end
